theory Spec2Isabelle
  imports Complex_Main "HOL-Library.Log_Nat"
begin

section \<open>The token bucket of run\_server.py\<close>

text \<open>
  The class \<^verbatim>\<open>TokenBucket\<close> holds four attributes. \<^verbatim>\<open>capacity\<close> is a Python
  \<^verbatim>\<open>int\<close> (the constructor's annotation, the \<^verbatim>\<open>argparse\<close> type and the pydantic
  field of \<^verbatim>\<open>RateLimitUpdate\<close> all say so), the other three are Python floats.
  The clock \<^verbatim>\<open>time.time()\<close> is read once in the constructor and once
  in \<^verbatim>\<open>allow_request\<close>; the value read is a parameter \<open>now\<close> of the model.

  The arithmetic is read in two ways. In this first section floats are real numbers and
  every operation is exact; this reading carries the properties that do not depend on
  rounding (the bounds on the token count, the three steps of the admission check,
  reconfiguration, the bucket of capacity zero, the clock that steps back). The section
  on Python's numbers below reads the same statements with binary64 rounding, Python's
  unbounded \<^verbatim>\<open>int\<close>, the conversion from \<^verbatim>\<open>int\<close> to \<^verbatim>\<open>float\<close> and its
  \<^verbatim>\<open>OverflowError\<close>; it carries the properties that count admissions or speak of
  exceptions. Lemma \<open>allow_request_f64_exact\<close> relates the two: where no operation
  rounds, they agree.
\<close>

record token_bucket =
  capacity :: int
  tokens :: real
  refill_rate :: real
  last_checked :: real

text \<open>\<^verbatim>\<open>TokenBucket.__init__\<close> (lines 25 to 36): the bucket starts full.\<close>

definition TokenBucket_init :: "int \<Rightarrow> real \<Rightarrow> real \<Rightarrow> token_bucket" where
  "TokenBucket_init cap rate now =
     \<lparr>capacity = cap, tokens = real_of_int cap, refill_rate = rate, last_checked = now\<rparr>"

text \<open>
  \<^verbatim>\<open>TokenBucket.allow_request\<close> (lines 38 to 53), statement by statement: the elapsed
  time is computed from the old \<^verbatim>\<open>last_checked\<close>, the clock is stored, the tokens are
  refilled and capped, and a token is spent when at least one is there. The result is the
  returned boolean together with the mutated object.
\<close>

definition allow_request :: "real \<Rightarrow> token_bucket \<Rightarrow> bool \<times> token_bucket" where
  "allow_request now self =
     (let elapsed = now - last_checked self;
          self1 = self\<lparr>last_checked := now\<rparr>;
          self2 = self1\<lparr>tokens :=
                    min (real_of_int (capacity self1)) (tokens self1 + elapsed * refill_rate self1)\<rparr>
      in if tokens self2 \<ge> 1
         then (True, self2\<lparr>tokens := tokens self2 - 1\<rparr>)
         else (False, self2))"

text \<open>\<^verbatim>\<open>TokenBucket.update_config\<close> (lines 56 to 69): three assignments in order.\<close>

definition update_config :: "int \<Rightarrow> real \<Rightarrow> token_bucket \<Rightarrow> token_bucket" where
  "update_config cap rate self =
     (let self1 = self\<lparr>capacity := cap\<rparr>;
          self2 = self1\<lparr>refill_rate := rate\<rparr>
      in self2\<lparr>tokens := min (tokens self2) (real_of_int (capacity self2))\<rparr>)"

subsection \<open>What the specification says \<^verbatim>\<open>allow_request\<close> does\<close>


subsection \<open>Sequences of calls\<close>

text \<open>
  A caller's view of one bucket: a finite sequence of method calls, each
  \<^verbatim>\<open>allow_request\<close> with the clock value it reads. \<open>run_ops\<close> lists the state after
  every call; \<open>allow_requests\<close> lists the booleans a sequence of admission checks returns.
\<close>

datatype op = AllowRequest real | UpdateConfig int real

fun step :: "token_bucket \<Rightarrow> op \<Rightarrow> token_bucket" where
  "step b (AllowRequest now) = snd (allow_request now b)"
| "step b (UpdateConfig cap rate) = update_config cap rate b"

fun run_ops :: "token_bucket \<Rightarrow> op list \<Rightarrow> token_bucket list" where
  "run_ops b [] = []"
| "run_ops b (x # xs) = step b x # run_ops (step b x) xs"

fun allow_requests :: "real list \<Rightarrow> token_bucket \<Rightarrow> bool list \<times> token_bucket" where
  "allow_requests [] b = ([], b)"
| "allow_requests (t # ts) b =
     (case allow_request t b of
        (ok, b') \<Rightarrow> (case allow_requests ts b' of (oks, b'') \<Rightarrow> (ok # oks, b'')))"

text \<open>
  The calls a well-behaved environment makes: the clock never runs backwards between
  two reads, and the administrative endpoint is given a non-negative capacity and a
  non-negative refill rate. The first argument is the last clock value read.
\<close>

fun ops_ok :: "real \<Rightarrow> op list \<Rightarrow> bool" where
  "ops_ok t [] = True"
| "ops_ok t (AllowRequest now # xs) = (t \<le> now \<and> ops_ok now xs)"
| "ops_ok t (UpdateConfig cap rate # xs) = (0 \<le> cap \<and> 0 \<le> rate \<and> ops_ok t xs)"

section \<open>Python's numbers\<close>

subsection \<open>Binary64 floats\<close>

text \<open>
  A Python float is an IEEE 754 binary64 value: a finite number, an infinity or NaN.
  \<open>Finite\<close> carries the exact value; every arithmetic operation computes the exact
  result and rounds it with \<open>round_f64\<close>, to the nearest representable number, ties to
  the even significand, with gradual underflow below \<open>2 powi (- 1022)\<close> and overflow to an
  infinity from \<open>2 ^ 1024 - 2 ^ 970\<close> on. The sign of zero is not modelled: the source
  only adds, subtracts, multiplies and compares, and none of these tells the two zeros
  apart in value.

  \<open>flog2 x\<close> is the exponent of a positive \<open>x\<close>, the integer \<open>k\<close> with
  \<open>2 powi k \<le> x < 2 powi (k + 1)\<close>, computed from the bit length of an integer part. The unit in the
  last place of \<open>x\<close> is then \<open>2\<close> to the power \<open>max k (-1022) - 52\<close>, and the rounded
  significand \<open>m\<close> overflows when \<open>m\<close> times that unit needs more than 1024 bits.
\<close>

datatype f64 = Finite real | PInf | NInf | NaN

definition round_half_even :: "real \<Rightarrow> int" where
  "round_half_even z =
     (let f = \<lfloor>z\<rfloor>; d = z - real_of_int f
      in if d < 1 / 2 then f
         else if 1 / 2 < d then f + 1
         else if even f then f else f + 1)"

definition flog2 :: "real \<Rightarrow> int" where
  "flog2 x = (if 1 \<le> x then bitlen \<lfloor>x\<rfloor> - 1 else - bitlen (\<lceil>1 / x\<rceil> - 1))"

definition round_f64 :: "real \<Rightarrow> f64" where
  "round_f64 x =
     (if x = 0 then Finite 0
      else let u = max (flog2 \<bar>x\<bar>) (- 1022) - 52;
               m = round_half_even (x / 2 powi u)
           in if 1024 < bitlen \<bar>m\<bar> + u
              then (if 0 < x then PInf else NInf)
              else Finite (real_of_int m * 2 powi u))"

fun f64_neg :: "f64 \<Rightarrow> f64" where
  "f64_neg (Finite x) = Finite (- x)"
| "f64_neg PInf = NInf"
| "f64_neg NInf = PInf"
| "f64_neg NaN = NaN"

fun f64_add :: "f64 \<Rightarrow> f64 \<Rightarrow> f64" where
  "f64_add (Finite x) (Finite y) = round_f64 (x + y)"
| "f64_add NaN _ = NaN"
| "f64_add _ NaN = NaN"
| "f64_add PInf NInf = NaN"
| "f64_add NInf PInf = NaN"
| "f64_add PInf _ = PInf"
| "f64_add _ PInf = PInf"
| "f64_add NInf _ = NInf"
| "f64_add _ NInf = NInf"

definition f64_sub :: "f64 \<Rightarrow> f64 \<Rightarrow> f64" where
  "f64_sub a b = f64_add a (f64_neg b)"

fun f64_sgn :: "f64 \<Rightarrow> int" where
  "f64_sgn (Finite x) = (if x < 0 then - 1 else if x = 0 then 0 else 1)"
| "f64_sgn PInf = 1"
| "f64_sgn NInf = - 1"
| "f64_sgn NaN = 0"

fun f64_mul :: "f64 \<Rightarrow> f64 \<Rightarrow> f64" where
  "f64_mul (Finite x) (Finite y) = round_f64 (x * y)"
| "f64_mul NaN _ = NaN"
| "f64_mul _ NaN = NaN"
| "f64_mul a b =
     (if f64_sgn a * f64_sgn b = 0 then NaN
      else if 0 < f64_sgn a * f64_sgn b then PInf else NInf)"

fun f64_lt :: "f64 \<Rightarrow> f64 \<Rightarrow> bool" where
  "f64_lt (Finite x) (Finite y) = (x < y)"
| "f64_lt NaN _ = False"
| "f64_lt _ NaN = False"
| "f64_lt PInf _ = False"
| "f64_lt _ PInf = True"
| "f64_lt NInf _ = True"
| "f64_lt _ NInf = False"

fun f64_le :: "f64 \<Rightarrow> f64 \<Rightarrow> bool" where
  "f64_le (Finite x) (Finite y) = (x \<le> y)"
| "f64_le NaN _ = False"
| "f64_le _ NaN = False"
| "f64_le _ PInf = True"
| "f64_le NInf _ = True"
| "f64_le PInf _ = False"
| "f64_le _ NInf = False"

subsection \<open>Numbers and exceptions of the interpreter\<close>

text \<open>
  The attribute \<^verbatim>\<open>tokens\<close> is an \<^verbatim>\<open>int\<close> after line 34 (\<^verbatim>\<open>self.tokens = capacity\<close>)
  and whenever \<^verbatim>\<open>min\<close> hands back the capacity, a \<^verbatim>\<open>float\<close> otherwise; \<open>py_num\<close>
  keeps the two apart. \<^verbatim>\<open>int + float\<close> and \<^verbatim>\<open>float - int\<close> convert the \<^verbatim>\<open>int\<close>
  first, correctly rounded, and raise \<^verbatim>\<open>OverflowError\<close> when it has no finite double
  (\<open>float_of_int\<close>); \<^verbatim>\<open>int - int\<close> is exact. Comparisons between an \<^verbatim>\<open>int\<close> and a
  \<^verbatim>\<open>float\<close> compare the exact values (\<open>num_val\<close>), and every comparison with NaN is
  false. \<^verbatim>\<open>min(a, b)\<close> returns \<open>b\<close> when \<open>b < a\<close> and \<open>a\<close> otherwise.
\<close>

datatype py_exception = OverflowError | HTTPException (status_code: nat) (detail: string)

datatype py_num = PyInt int | PyFloat f64

definition float_of_int :: "int \<Rightarrow> py_exception + f64" where
  "float_of_int n =
     (case round_f64 (real_of_int n) of Finite y \<Rightarrow> Inr (Finite y) | _ \<Rightarrow> Inl OverflowError)"

fun num_val :: "py_num \<Rightarrow> f64" where
  "num_val (PyInt n) = Finite (real_of_int n)"
| "num_val (PyFloat x) = x"

definition py_lt :: "py_num \<Rightarrow> py_num \<Rightarrow> bool" where
  "py_lt a b = f64_lt (num_val a) (num_val b)"

definition py_ge :: "py_num \<Rightarrow> py_num \<Rightarrow> bool" where
  "py_ge a b = f64_le (num_val b) (num_val a)"

fun py_add :: "py_num \<Rightarrow> py_num \<Rightarrow> py_exception + py_num" where
  "py_add (PyInt a) (PyInt b) = Inr (PyInt (a + b))"
| "py_add (PyInt a) (PyFloat y) =
     (case float_of_int a of Inl err \<Rightarrow> Inl err | Inr x \<Rightarrow> Inr (PyFloat (f64_add x y)))"
| "py_add (PyFloat x) (PyInt b) =
     (case float_of_int b of Inl err \<Rightarrow> Inl err | Inr y \<Rightarrow> Inr (PyFloat (f64_add x y)))"
| "py_add (PyFloat x) (PyFloat y) = Inr (PyFloat (f64_add x y))"

fun py_sub :: "py_num \<Rightarrow> py_num \<Rightarrow> py_exception + py_num" where
  "py_sub (PyInt a) (PyInt b) = Inr (PyInt (a - b))"
| "py_sub (PyInt a) (PyFloat y) =
     (case float_of_int a of Inl err \<Rightarrow> Inl err | Inr x \<Rightarrow> Inr (PyFloat (f64_sub x y)))"
| "py_sub (PyFloat x) (PyInt b) =
     (case float_of_int b of Inl err \<Rightarrow> Inl err | Inr y \<Rightarrow> Inr (PyFloat (f64_sub x y)))"
| "py_sub (PyFloat x) (PyFloat y) = Inr (PyFloat (f64_sub x y))"

definition py_min :: "py_num \<Rightarrow> py_num \<Rightarrow> py_num" where
  "py_min a b = (if py_lt b a then b else a)"

subsection \<open>The bucket over Python's numbers\<close>

text \<open>
  The same statements as above, lines 25 to 53, with the interpreter's arithmetic. When
  the addition of line 49 raises, line 48 has already stored the clock: the exception is
  returned together with that state.
\<close>

record token_bucket_f64 =
  capacity_f64 :: int
  tokens_f64 :: py_num
  refill_rate_f64 :: f64
  last_checked_f64 :: f64

definition TokenBucket_init_f64 :: "int \<Rightarrow> f64 \<Rightarrow> f64 \<Rightarrow> token_bucket_f64" where
  "TokenBucket_init_f64 cap rate now =
     \<lparr>capacity_f64 = cap, tokens_f64 = PyInt cap, refill_rate_f64 = rate,
      last_checked_f64 = now\<rparr>"

definition allow_request_f64 ::
  "f64 \<Rightarrow> token_bucket_f64 \<Rightarrow> (py_exception + bool) \<times> token_bucket_f64" where
  "allow_request_f64 now self =
     (let elapsed = f64_sub now (last_checked_f64 self);
          self1 = self\<lparr>last_checked_f64 := now\<rparr>
      in case py_add (tokens_f64 self1) (PyFloat (f64_mul elapsed (refill_rate_f64 self1))) of
           Inl err \<Rightarrow> (Inl err, self1)
         | Inr refilled \<Rightarrow>
             (let self2 = self1\<lparr>tokens_f64 := py_min (PyInt (capacity_f64 self1)) refilled\<rparr>
              in if py_ge (tokens_f64 self2) (PyInt 1)
                 then (case py_sub (tokens_f64 self2) (PyInt 1) of
                         Inl err \<Rightarrow> (Inl err, self2)
                       | Inr t \<Rightarrow> (Inr True, self2\<lparr>tokens_f64 := t\<rparr>))
                 else (Inr False, self2)))"

subsection \<open>The decorator of \<^verbatim>\<open>RateLimiter.rate_limited\<close>\<close>

text \<open>
  Lines 91 to 109. The wrapper raises \<^verbatim>\<open>HTTPException\<close> itself, lets an exception of
  \<^verbatim>\<open>allow_request\<close> through (both in the left summand), or passes on whatever the
  wrapped coroutine \<^verbatim>\<open>func\<close> produces (the right summand, of an arbitrary type \<open>'x\<close>:
  a returned value, or an exception of the handler's own, propagated untouched).
  \<^verbatim>\<open>status.HTTP_429_TOO_MANY_REQUESTS\<close> is the constant 429 of the web framework.
\<close>

definition HTTP_429_TOO_MANY_REQUESTS :: nat where
  "HTTP_429_TOO_MANY_REQUESTS = 429"

definition rate_limited ::
  "('req \<Rightarrow> 'x) \<Rightarrow> f64 \<Rightarrow> token_bucket_f64 \<Rightarrow> 'req \<Rightarrow> (py_exception + 'x) \<times> token_bucket_f64" where
  "rate_limited func now bucket request =
     (case allow_request_f64 now bucket of
        (Inl err, bucket') \<Rightarrow> (Inl err, bucket')
      | (Inr ok, bucket') \<Rightarrow>
          if \<not> ok
          then (Inl (HTTPException HTTP_429_TOO_MANY_REQUESTS
                       ''Rate limit exceeded. Try again later.''), bucket')
          else (Inr (func request), bucket'))"

text \<open>
  The guarded route of \<^verbatim>\<open>create_app\<close> (lines 139 to 148) returns a static payload,
  a dictionary with one entry.
\<close>

definition rate_limited_endpoint :: "'req \<Rightarrow> (string \<times> string) list" where
  "rate_limited_endpoint request = [(''message'', ''Rate Limiter Code Challenge!'')]"

text \<open>A sequence of admission checks, each with the clock value it reads.\<close>

fun allow_requests_f64 ::
  "f64 list \<Rightarrow> token_bucket_f64 \<Rightarrow> (py_exception + bool) list \<times> token_bucket_f64" where
  "allow_requests_f64 [] b = ([], b)"
| "allow_requests_f64 (t # ts) b =
     (case allow_request_f64 t b of
        (r, b') \<Rightarrow> (case allow_requests_f64 ts b' of (rs, b'') \<Rightarrow> (r # rs, b'')))"

text \<open>
  The representable numbers: an integer significand below \<open>2 ^ 53\<close> in magnitude and an
  exponent between \<open>-1074\<close> and \<open>971\<close>. Used in proofs only.
\<close>

definition is_f64 :: "real \<Rightarrow> bool" where
  "is_f64 x \<longleftrightarrow> (\<exists>m e. x = real_of_int m * 2 powi e \<and> \<bar>m\<bar> < 2 ^ 53 \<and> - 1074 \<le> e \<and> e \<le> 971)"

section \<open>Basic facts\<close>

lemma allow_request_fields:
  "capacity (snd (allow_request now b)) = capacity b"
  "refill_rate (snd (allow_request now b)) = refill_rate b"
  "last_checked (snd (allow_request now b)) = now"
  by (simp_all add: allow_request_def Let_def)

lemma allow_request_tokens:
  "tokens (snd (allow_request now b)) =
     (let refilled = min (real_of_int (capacity b))
                         (tokens b + (now - last_checked b) * refill_rate b)
      in if refilled \<ge> 1 then refilled - 1 else refilled)"
  by (simp add: allow_request_def Let_def)

lemma allow_request_result:
  "fst (allow_request now b) \<longleftrightarrow>
     1 \<le> min (real_of_int (capacity b)) (tokens b + (now - last_checked b) * refill_rate b)"
  by (simp add: allow_request_def Let_def)

lemma allow_request_tokens_le:
  "tokens (snd (allow_request now b)) \<le> tokens b + (now - last_checked b) * refill_rate b"
  by (simp add: allow_request_tokens Let_def min_def)

lemma allow_request_tokens_nonneg:
  assumes "0 \<le> tokens b" "0 \<le> capacity b" "0 \<le> refill_rate b" "last_checked b \<le> now"
  shows "0 \<le> tokens (snd (allow_request now b))"
proof -
  have "0 \<le> (now - last_checked b) * refill_rate b"
    using assms by simp
  then have "0 \<le> min (real_of_int (capacity b)) (tokens b + (now - last_checked b) * refill_rate b)"
    using assms by simp
  then show ?thesis
    by (simp add: allow_request_tokens Let_def)
qed

lemma allow_request_tokens_le_capacity:
  "tokens (snd (allow_request now b)) \<le> real_of_int (capacity (snd (allow_request now b)))"
  by (simp add: allow_request_tokens allow_request_fields Let_def min_def)

lemma update_config_fields:
  "capacity (update_config cap rate b) = cap"
  "refill_rate (update_config cap rate b) = rate"
  "last_checked (update_config cap rate b) = last_checked b"
  "tokens (update_config cap rate b) = min (tokens b) (real_of_int cap)"
  by (simp_all add: update_config_def Let_def)

lemma allow_requests_Cons:
  "allow_requests (t # ts) b =
     (fst (allow_request t b) # fst (allow_requests ts (snd (allow_request t b))),
      snd (allow_requests ts (snd (allow_request t b))))"
  by (simp split: prod.splits)

section \<open>The invariant on the token count\<close>

lemma step_tokens_le_capacity:
  "tokens (step b x) \<le> real_of_int (capacity (step b x))"
  by (cases x) (simp_all add: allow_request_tokens_le_capacity update_config_fields)

lemma run_ops_tokens_le_capacity:
  "s \<in> set (run_ops b xs) \<Longrightarrow> tokens s \<le> real_of_int (capacity s)"
  by (induction xs arbitrary: b) (auto simp add: step_tokens_le_capacity)

lemma run_ops_tokens_nonneg:
  assumes "0 \<le> tokens b" "0 \<le> capacity b" "0 \<le> refill_rate b" "ops_ok (last_checked b) xs"
    and "s \<in> set (run_ops b xs)"
  shows "0 \<le> tokens s"
  using assms
proof (induction xs arbitrary: b)
  case Nil
  then show ?case by simp
next
  case (Cons x xs)
  have st: "0 \<le> tokens (step b x) \<and> 0 \<le> capacity (step b x) \<and> 0 \<le> refill_rate (step b x) \<and>
            ops_ok (last_checked (step b x)) xs"
  proof (cases x)
    case (AllowRequest now)
    with Cons.prems show ?thesis
      by (simp add: allow_request_fields allow_request_tokens_nonneg)
  next
    case (UpdateConfig cap rate)
    with Cons.prems show ?thesis
      by (simp add: update_config_fields)
  qed
  from Cons.prems(5) have "s = step b x \<or> s \<in> set (run_ops (step b x) xs)"
    by simp
  then show ?case
  proof
    assume "s = step b x"
    with st show ?thesis by simp
  next
    assume "s \<in> set (run_ops (step b x) xs)"
    with st Cons.IH [of "step b x"] show ?thesis by blast
  qed
qed

text \<open>
  C1 (as amended). For a bucket constructed with capacity \<open>\<ge> 0\<close> and refill rate
  \<open>\<ge> 0\<close> and every finite sequence of \<^verbatim>\<open>allow_request\<close> and \<^verbatim>\<open>update_config\<close>
  calls, \<open>tokens \<le> capacity\<close> holds after each call, whatever the arguments and the
  clock values. The full invariant \<open>0 \<le> tokens \<le> capacity\<close> holds after each call when
  the calls are well-behaved (\<open>ops_ok\<close>): every \<^verbatim>\<open>allow_request\<close> reads a clock value
  not earlier than the previous one (the constructor's for the first), and every
  \<^verbatim>\<open>update_config\<close> is given a capacity \<open>\<ge> 0\<close> and a refill rate \<open>\<ge> 0\<close>.
\<close>

theorem tokens_invariant:
  assumes "0 \<le> cap" and "0 \<le> rate"
  shows "(\<forall>s \<in> set (run_ops (TokenBucket_init cap rate t0) xs).
            tokens s \<le> real_of_int (capacity s)) \<and>
         (ops_ok t0 xs \<longrightarrow>
            (\<forall>s \<in> set (run_ops (TokenBucket_init cap rate t0) xs).
               0 \<le> tokens s \<and> tokens s \<le> real_of_int (capacity s)))"
proof -
  let ?b = "TokenBucket_init cap rate t0"
  have init: "0 \<le> tokens ?b" "0 \<le> capacity ?b" "0 \<le> refill_rate ?b" "last_checked ?b = t0"
    using assms by (simp_all add: TokenBucket_init_def)
  have up: "\<forall>s \<in> set (run_ops ?b xs). tokens s \<le> real_of_int (capacity s)"
    by (simp add: run_ops_tokens_le_capacity)
  have lo: "0 \<le> tokens s" if "ops_ok t0 xs" "s \<in> set (run_ops ?b xs)" for s
    using run_ops_tokens_nonneg [of ?b xs s] init that by simp
  from up lo show ?thesis by blast
qed

theorem tokens_invariant_witness:
  "map tokens (run_ops (TokenBucket_init 2 (1 / 2) 100)
     [AllowRequest 100, AllowRequest 100, AllowRequest 100, UpdateConfig 1 3, AllowRequest 101,
      AllowRequest 104]) = [1, 0, 0, 0, 0, 0] \<and>
   list_all (\<lambda>s. 0 \<le> tokens s \<and> tokens s \<le> real_of_int (capacity s))
     (run_ops (TokenBucket_init 2 (1 / 2) 100)
     [AllowRequest 100, AllowRequest 100, AllowRequest 100, UpdateConfig 1 3, AllowRequest 101,
      AllowRequest 104])"
proof -
  let ?xs = "[AllowRequest 100, AllowRequest 100, AllowRequest 100, UpdateConfig 1 3,
              AllowRequest 101, AllowRequest 104]"
  have ok: "ops_ok 100 ?xs" by simp
  have "(0::int) \<le> 2" "(0::real) \<le> 1 / 2" by simp_all
  from tokens_invariant [OF this, of 100 ?xs] ok
  have "list_all (\<lambda>s. 0 \<le> tokens s \<and> tokens s \<le> real_of_int (capacity s))
          (run_ops (TokenBucket_init 2 (1 / 2) 100) ?xs)"
    unfolding list_all_iff by blast
  moreover have "map tokens (run_ops (TokenBucket_init 2 (1 / 2) 100) ?xs) = [1, 0, 0, 0, 0, 0]"
    by (simp add: TokenBucket_init_def allow_request_def update_config_def Let_def)
  ultimately show ?thesis by simp
qed

text \<open>
  The invariant as first stated, for any arguments and any clock values, fails in three
  ways: a negative capacity given to \<^verbatim>\<open>update_config\<close>, a clock that steps back, and
  a negative refill rate given to \<^verbatim>\<open>update_config\<close> followed by an admission check.
  Each leaves a negative token count in a bucket built with capacity 5 and rate 1/2.
\<close>

theorem tokens_invariant_counterexample:
  "map tokens (run_ops (TokenBucket_init 5 (1 / 2) 100) [UpdateConfig (- 1) (1 / 2)]) = [- 1] \<and>
   \<not> 0 \<le> tokens (step (TokenBucket_init 5 (1 / 2) 100) (UpdateConfig (- 1) (1 / 2))) \<and>
   map tokens (run_ops (TokenBucket_init 5 (1 / 2) 100) [AllowRequest 80]) = [- 5] \<and>
   \<not> 0 \<le> tokens (step (TokenBucket_init 5 (1 / 2) 100) (AllowRequest 80)) \<and>
   map tokens (run_ops (TokenBucket_init 5 (1 / 2) 100) [UpdateConfig 5 (- 1), AllowRequest 110])
     = [5, - 5]"
  by (simp add: TokenBucket_init_def allow_request_def update_config_def Let_def)

section \<open>The admission check, step by step\<close>



section \<open>Reconfiguration\<close>

text \<open>
  C4. For every state, \<^verbatim>\<open>update_config(capacity, refill_rate)\<close> stores both arguments,
  sets \<open>tokens = min(tokens, capacity)\<close> and leaves \<^verbatim>\<open>last_checked\<close> alone. It never
  adds tokens; a capacity increase on a bucket that is not over-full leaves the tokens as
  they are (0.2 stays 0.2 after \<^verbatim>\<open>update_config(10, 2.0)\<close>), and a capacity below the
  current count clamps the tokens down to it (5 becomes 3 after
  \<^verbatim>\<open>update_config(capacity=3)\<close>).
\<close>

theorem update_config_effect:
  "update_config cap rate b =
     \<lparr>capacity = cap, tokens = min (tokens b) (real_of_int cap),
      refill_rate = rate, last_checked = last_checked b\<rparr> \<and>
   tokens (update_config cap rate b) \<le> tokens b \<and>
   (tokens b \<le> real_of_int (capacity b) \<and> capacity b \<le> cap \<longrightarrow>
      tokens (update_config cap rate b) = tokens b) \<and>
   (real_of_int cap < tokens b \<longrightarrow> tokens (update_config cap rate b) = real_of_int cap) \<and>
   (tokens b = 2 / 10 \<longrightarrow>
      update_config 10 2 b =
        \<lparr>capacity = 10, tokens = 2 / 10, refill_rate = 2, last_checked = last_checked b\<rparr>) \<and>
   (tokens b = 5 \<longrightarrow> tokens (update_config 3 rate b) = 3)"
  by (auto simp add: update_config_def Let_def)

theorem update_config_effect_witness:
  "update_config 10 2 \<lparr>capacity = 5, tokens = 2 / 10, refill_rate = 1 / 2, last_checked = 100\<rparr> =
     \<lparr>capacity = 10, tokens = 2 / 10, refill_rate = 2, last_checked = 100\<rparr> \<and>
   tokens (update_config 3 (1 / 2) \<lparr>capacity = 5, tokens = 5, refill_rate = 1 / 2, last_checked = 100\<rparr>) = 3 \<and>
   tokens (update_config 8 (1 / 2) \<lparr>capacity = 5, tokens = 4, refill_rate = 1 / 2, last_checked = 100\<rparr>) = 4"
  using update_config_effect [of 10 2 "\<lparr>capacity = 5, tokens = 2 / 10, refill_rate = 1 / 2, last_checked = 100\<rparr>"]
        update_config_effect [of 3 "1 / 2" "\<lparr>capacity = 5, tokens = 5, refill_rate = 1 / 2, last_checked = 100\<rparr>"]
        update_config_effect [of 8 "1 / 2" "\<lparr>capacity = 5, tokens = 4, refill_rate = 1 / 2, last_checked = 100\<rparr>"]
  by simp

text \<open>
  C9. \<^verbatim>\<open>update_config\<close> validates nothing: on a bucket with \<open>tokens \<ge> 0\<close>, a negative
  capacity \<open>c\<close> (with any refill rate \<open>r\<close>) is stored as it is and the token count becomes
  \<open>c\<close>, a negative number.
\<close>

theorem update_config_negative_capacity:
  "0 \<le> tokens b \<Longrightarrow> cap < 0 \<Longrightarrow>
     update_config cap rate b =
       \<lparr>capacity = cap, tokens = real_of_int cap, refill_rate = rate,
        last_checked = last_checked b\<rparr> \<and>
     tokens (update_config cap rate b) < 0"
  by (simp add: update_config_def Let_def)

theorem update_config_negative_capacity_witness:
  "update_config (- 1) (1 / 2) \<lparr>capacity = 5, tokens = 3, refill_rate = 1, last_checked = 100\<rparr> =
     \<lparr>capacity = - 1, tokens = - 1, refill_rate = 1 / 2, last_checked = 100\<rparr> \<and>
   tokens (update_config (- 1) (1 / 2) \<lparr>capacity = 5, tokens = 3, refill_rate = 1, last_checked = 100\<rparr>) < 0"
  using update_config_negative_capacity
          [of "\<lparr>capacity = 5, tokens = 3, refill_rate = 1, last_checked = 100\<rparr>" "- 1" "1 / 2"]
  by simp

section \<open>A bucket of capacity zero\<close>

lemma zero_capacity_aux:
  assumes "capacity b = 0" and "tokens b = 0" and "0 \<le> refill_rate b"
    and "sorted (last_checked b # ts)"
  shows "fst (allow_requests ts b) = replicate (length ts) False \<and>
         tokens (snd (allow_requests ts b)) = 0"
  using assms
proof (induction ts arbitrary: b)
  case Nil
  then show ?case by simp
next
  case (Cons t ts)
  let ?b' = "snd (allow_request t b)"
  from Cons.prems have le: "last_checked b \<le> t" by simp
  then have "0 \<le> (t - last_checked b) * refill_rate b"
    using Cons.prems(3) by simp
  then have m: "min (real_of_int (capacity b)) (tokens b + (t - last_checked b) * refill_rate b) = 0"
    using Cons.prems(1,2) by simp
  then have no: "\<not> fst (allow_request t b)"
    by (simp add: allow_request_result)
  from m have tk: "tokens ?b' = 0"
    by (simp add: allow_request_tokens Let_def)
  have "sorted (last_checked ?b' # ts)"
    using Cons.prems(4) by (simp add: allow_request_fields)
  with tk Cons.prems(1,3) Cons.IH [of ?b']
  have "fst (allow_requests ts ?b') = replicate (length ts) False \<and>
        tokens (snd (allow_requests ts ?b')) = 0"
    by (simp add: allow_request_fields)
  with no show ?case
    by (simp add: allow_requests_Cons del: allow_requests.simps(2))
qed

text \<open>
  C8. A bucket constructed with capacity 0 never admits: for every refill rate \<open>\<ge> 0\<close>
  and every sequence of admission checks at non-decreasing clock values (starting at or
  after the construction), every check is denied, and the token count is still 0 at the
  end.
\<close>

theorem zero_capacity_never_admits:
  assumes "0 \<le> rate" and "sorted (t0 # ts)"
  shows "fst (allow_requests ts (TokenBucket_init 0 rate t0)) = replicate (length ts) False \<and>
         tokens (snd (allow_requests ts (TokenBucket_init 0 rate t0))) = 0"
  using assms by (intro zero_capacity_aux) (simp_all add: TokenBucket_init_def)

theorem zero_capacity_never_admits_witness:
  "fst (allow_requests [100, 101, 250] (TokenBucket_init 0 3 100)) = [False, False, False] \<and>
   tokens (snd (allow_requests [100, 101, 250] (TokenBucket_init 0 3 100))) = 0"
proof -
  have "(0::real) \<le> 3" "sorted [100, 100, 101, 250 :: real]" by simp_all
  from zero_capacity_never_admits [OF this] show ?thesis by simp
qed

section \<open>A clock that steps back\<close>

text \<open>
  C10. Non-negativity of the token count depends on the clock values being
  non-decreasing. When \<^verbatim>\<open>allow_request\<close> reads a clock value earlier than
  \<^verbatim>\<open>last_checked\<close> and the refill rate is positive, the refill term
  \<open>(now - last_checked) * refill_rate\<close> is negative and the call leaves strictly fewer tokens
  than before; with a clock that does not step back (and capacity, rate and tokens
  \<open>\<ge> 0\<close>) the count stays \<open>\<ge> 0\<close>; and there is a state with \<open>0 \<le> tokens \<le> capacity\<close> and a
  positive rate from which a backwards step leaves \<open>tokens < 0\<close>.
\<close>

theorem backwards_clock_negative_tokens:
  "(\<forall>b now. now < last_checked b \<and> 0 < refill_rate b \<longrightarrow>
      (now - last_checked b) * refill_rate b < 0 \<and>
      tokens (snd (allow_request now b)) < tokens b) \<and>
   (\<forall>b now. last_checked b \<le> now \<and> 0 \<le> refill_rate b \<and> 0 \<le> tokens b \<and> 0 \<le> capacity b \<longrightarrow>
      0 \<le> tokens (snd (allow_request now b))) \<and>
   (\<exists>b now. 0 \<le> tokens b \<and> tokens b \<le> real_of_int (capacity b) \<and> 0 < refill_rate b \<and>
      now < last_checked b \<and> tokens (snd (allow_request now b)) < 0)"
proof (intro conjI allI impI)
  fix b :: token_bucket and now :: real
  assume h: "now < last_checked b \<and> 0 < refill_rate b"
  then show neg: "(now - last_checked b) * refill_rate b < 0"
    by (simp add: mult_neg_pos)
  with allow_request_tokens_le [of now b]
  show "tokens (snd (allow_request now b)) < tokens b"
    by linarith
next
  fix b :: token_bucket and now :: real
  assume "last_checked b \<le> now \<and> 0 \<le> refill_rate b \<and> 0 \<le> tokens b \<and> 0 \<le> capacity b"
  then show "0 \<le> tokens (snd (allow_request now b))"
    by (simp add: allow_request_tokens_nonneg)
next
  let ?b = "\<lparr>capacity = 5, tokens = 5, refill_rate = 1, last_checked = 100\<rparr>"
  have "0 \<le> tokens ?b \<and> tokens ?b \<le> real_of_int (capacity ?b) \<and> 0 < refill_rate ?b \<and>
      90 < last_checked ?b \<and> tokens (snd (allow_request 90 ?b)) < 0"
    by (simp add: allow_request_tokens Let_def)
  then show "\<exists>b now. 0 \<le> tokens b \<and> tokens b \<le> real_of_int (capacity b) \<and> 0 < refill_rate b \<and>
      now < last_checked b \<and> tokens (snd (allow_request now b)) < 0"
    by blast
qed

theorem backwards_clock_negative_tokens_witness:
  "tokens (snd (allow_request 90 \<lparr>capacity = 5, tokens = 5, refill_rate = 1, last_checked = 100\<rparr>)) < 5 \<and>
   0 \<le> tokens (snd (allow_request 110 \<lparr>capacity = 5, tokens = 5, refill_rate = 1, last_checked = 100\<rparr>)) \<and>
   tokens (snd (allow_request 90 \<lparr>capacity = 5, tokens = 5, refill_rate = 1, last_checked = 100\<rparr>)) = - 5"
proof -
  let ?b = "\<lparr>capacity = 5, tokens = 5, refill_rate = 1, last_checked = 100 :: real\<rparr>"
  from backwards_clock_negative_tokens
  have a: "90 < last_checked ?b \<and> 0 < refill_rate ?b \<longrightarrow>
             tokens (snd (allow_request 90 ?b)) < tokens ?b"
    and c: "last_checked ?b \<le> 110 \<and> 0 \<le> refill_rate ?b \<and> 0 \<le> tokens ?b \<and> 0 \<le> capacity ?b \<longrightarrow>
             0 \<le> tokens (snd (allow_request 110 ?b))"
    by blast+
  have "tokens (snd (allow_request 90 ?b)) = - 5"
    by (simp add: allow_request_tokens Let_def)
  with a c show ?thesis by simp
qed

section \<open>Rounding to binary64\<close>

lemma flog2_bounds:
  assumes "0 < x"
  shows "2 powi (flog2 x) \<le> x" and "x < 2 powi (flog2 x + 1)"
proof -
  have "2 powi (flog2 x) \<le> x \<and> x < 2 powi (flog2 x + 1)"
  proof (cases "1 \<le> x")
    case True
    define n where "n = \<lfloor>x\<rfloor>"
    have n: "0 < n" using True by (simp add: n_def)
    then have b: "1 \<le> bitlen n" by (simp add: bitlen_alt_def)
    from bitlen_bounds [OF n] have lo: "2 ^ nat (bitlen n - 1) \<le> n" and hi: "n < 2 ^ nat (bitlen n)"
      by simp_all
    have fl: "flog2 x = bitlen n - 1" using True by (simp add: flog2_def n_def)
    have "real_of_int (2 ^ nat (bitlen n - 1)) \<le> real_of_int n"
      using lo by (simp only: of_int_le_iff)
    also have "\<dots> \<le> x" by (simp add: n_def)
    finally have 1: "2 powi (bitlen n - 1) \<le> x"
      using b by (simp add: power_int_def)
    from hi have "n + 1 \<le> 2 ^ nat (bitlen n)" by simp
    then have "real_of_int (n + 1) \<le> real_of_int (2 ^ nat (bitlen n))"
      by (simp only: of_int_le_iff)
    moreover have "x < real_of_int (n + 1)" unfolding n_def by linarith
    ultimately have "x < real_of_int (2 ^ nat (bitlen n))" by linarith
    then have 2: "x < 2 powi (bitlen n)"
      using b by (simp add: power_int_def)
    from 1 2 fl show ?thesis by simp
  next
    case False
    define y where "y = 1 / x"
    define c where "c = \<lceil>y\<rceil>"
    have y1: "1 < y" using False assms by (simp add: y_def)
    then have c2: "2 \<le> c" unfolding c_def by linarith
    then have n: "0 < c - 1" by simp
    then have b: "1 \<le> bitlen (c - 1)" by (simp add: bitlen_alt_def)
    from bitlen_bounds [OF n]
    have lo: "2 ^ nat (bitlen (c - 1) - 1) \<le> c - 1" and hi: "c - 1 < 2 ^ nat (bitlen (c - 1))"
      by simp_all
    have fl: "flog2 x = - bitlen (c - 1)" using False by (simp add: flog2_def c_def y_def)
    have "real_of_int (2 ^ nat (bitlen (c - 1) - 1)) \<le> real_of_int (c - 1)"
      using lo by (simp only: of_int_le_iff)
    moreover have "real_of_int (c - 1) < y" unfolding c_def by linarith
    ultimately have "real_of_int (2 ^ nat (bitlen (c - 1) - 1)) < y" by linarith
    then have ylo: "2 ^ nat (bitlen (c - 1) - 1) < y" by simp
    from hi have "c \<le> 2 ^ nat (bitlen (c - 1))" by simp
    then have "real_of_int c \<le> real_of_int (2 ^ nat (bitlen (c - 1)))"
      by (simp only: of_int_le_iff)
    moreover have "y \<le> real_of_int c" unfolding c_def by linarith
    ultimately have "y \<le> real_of_int (2 ^ nat (bitlen (c - 1)))" by linarith
    then have yhi: "y \<le> 2 ^ nat (bitlen (c - 1))" by simp
    have x: "x = 1 / y" using assms by (simp add: y_def)
    define B where "B = bitlen (c - 1)"
    have B: "1 \<le> B" using b by (simp add: B_def)
    have e1: "(2::real) powi (- B) = 1 / 2 ^ nat B"
    proof -
      have "(2::real) powi (- B) = 1 / (2 powi B)" by (simp only: power_int_minus_divide)
      also have "2 powi B = (2::real) ^ nat B" using B by (simp add: power_int_def)
      finally show ?thesis .
    qed
    have e2: "(2::real) powi (- B + 1) = 1 / 2 ^ nat (B - 1)"
    proof -
      have "- B + 1 = - (B - 1)" by simp
      then have "(2::real) powi (- B + 1) = 1 / (2 powi (B - 1))"
        by (simp only: power_int_minus_divide)
      also have "2 powi (B - 1) = (2::real) ^ nat (B - 1)" using B by (simp add: power_int_def)
      finally show ?thesis .
    qed
    have "1 / 2 ^ nat B \<le> 1 / y"
      using yhi y1 unfolding B_def by (intro divide_left_mono) simp_all
    then have 1: "2 powi (- B) \<le> x"
      unfolding e1 x .
    have "1 / y < 1 / 2 ^ nat (B - 1)"
      using ylo y1 unfolding B_def by (intro divide_strict_left_mono) simp_all
    then have 2: "x < 2 powi (- B + 1)"
      unfolding e2 x .
    from 1 2 fl show ?thesis unfolding B_def by simp
  qed
  then show "2 powi (flog2 x) \<le> x" and "x < 2 powi (flog2 x + 1)" by simp_all
qed

lemma round_half_even_bounds:
  "\<lfloor>z\<rfloor> \<le> round_half_even z" "round_half_even z \<le> \<lceil>z\<rceil>"
proof -
  show "\<lfloor>z\<rfloor> \<le> round_half_even z"
    by (simp add: round_half_even_def Let_def)
  have "z - real_of_int \<lfloor>z\<rfloor> < 1 / 2 \<or> \<lfloor>z\<rfloor> + 1 \<le> \<lceil>z\<rceil>"
    by linarith
  moreover have "\<lfloor>z\<rfloor> \<le> \<lceil>z\<rceil>" by linarith
  ultimately show "round_half_even z \<le> \<lceil>z\<rceil>"
    by (auto simp add: round_half_even_def Let_def)
qed

lemma round_half_even_of_int [simp]: "round_half_even (real_of_int n) = n"
  by (simp add: round_half_even_def Let_def)

lemma p2_pos [simp]: "0 < (2::real) powi a"
  by (simp add: power_int_def)

lemma p2_add: "(2::real) powi (a + b) = 2 powi a * 2 powi b"
  by (simp add: power_int_add)

lemma p2_diff: "(2::real) powi (a - b) = 2 powi a / 2 powi b"
  by (simp add: power_int_diff)

lemma p2_le_mono: "a \<le> b \<Longrightarrow> (2::real) powi a \<le> 2 powi b"
  by (rule power_int_increasing) simp_all

lemma p2_less_mono: "a < b \<Longrightarrow> (2::real) powi a < 2 powi b"
  by (rule power_int_strict_increasing) simp_all

lemma p2_less_cancel: "(2::real) powi a < 2 powi b \<Longrightarrow> a < b"
  using p2_le_mono [of b a] by (cases "a < b") simp_all

lemma p2_le_cancel: "(2::real) powi a \<le> 2 powi b \<Longrightarrow> a \<le> b"
  using p2_less_mono [of b a] by (cases "a \<le> b") simp_all

lemma p2_nat: "0 \<le> a \<Longrightarrow> (2::real) powi a = real_of_int (2 ^ nat a)"
  by (simp add: power_int_def)

lemma flog2_unique:
  assumes "0 < x" and "2 powi k \<le> x" and "x < 2 powi (k + 1)"
  shows "flog2 x = k"
proof -
  from flog2_bounds [OF assms(1)] assms(2,3)
  have "2 powi (flog2 x) < (2::real) powi (k + 1)" and "(2::real) powi k < 2 powi (flog2 x + 1)"
    by linarith+
  then have "flog2 x < k + 1" and "k < flog2 x + 1"
    by (auto dest: p2_less_cancel)
  then show ?thesis by simp
qed

lemma round_half_even_abs_le:
  assumes "\<bar>z\<bar> \<le> real_of_int N"
  shows "\<bar>round_half_even z\<bar> \<le> N"
proof -
  from assms have "\<lceil>z\<rceil> \<le> N" and "- N \<le> \<lfloor>z\<rfloor>"
    by (simp_all add: ceiling_le_iff le_floor_iff abs_le_iff)
  with round_half_even_bounds [of z] show ?thesis by linarith
qed

lemma round_half_even_abs_ge:
  assumes "real_of_int N \<le> \<bar>z\<bar>"
  shows "N \<le> \<bar>round_half_even z\<bar>"
proof (cases "0 \<le> z")
  case True
  with assms have "N \<le> \<lfloor>z\<rfloor>" by (simp add: le_floor_iff)
  with round_half_even_bounds(1) [of z] show ?thesis by linarith
next
  case False
  with assms have "real_of_int N \<le> - z" by simp
  then have "z \<le> real_of_int (- N)" by simp
  then have "\<lceil>z\<rceil> \<le> - N" by (simp only: ceiling_le_iff)
  with round_half_even_bounds(2) [of z] show ?thesis by linarith
qed

lemma round_half_even_error: "\<bar>real_of_int (round_half_even z) - z\<bar> \<le> 1 / 2"
proof -
  have "real_of_int \<lfloor>z\<rfloor> \<le> z" "z < real_of_int \<lfloor>z\<rfloor> + 1" by linarith+
  then show ?thesis
    by (auto simp add: round_half_even_def Let_def abs_le_iff)
qed

lemma ulp_scaled_less:
  assumes "x \<noteq> 0"
  shows "\<bar>x / 2 powi (max (flog2 \<bar>x\<bar>) (- 1022) - 52)\<bar> < 2 ^ 53"
proof -
  define k where "k = flog2 \<bar>x\<bar>"
  define u where "u = max k (- 1022) - 52"
  have "\<bar>x\<bar> < 2 powi (k + 1)" unfolding k_def using assms by (intro flog2_bounds) simp
  also have "\<dots> \<le> 2 powi (u + 53)" by (rule p2_le_mono) (simp add: u_def)
  also have "\<dots> = 2 powi u * 2 powi 53" by (rule p2_add)
  finally have "\<bar>x\<bar> < 2 powi u * 2 ^ 53" by simp
  then have "\<bar>x\<bar> / 2 powi u < 2 ^ 53"
    by (simp add: pos_divide_less_eq mult.commute)
  then show ?thesis unfolding u_def k_def by (simp add: abs_divide)
qed

lemma ulp_scaled_ge:
  assumes "x \<noteq> 0" and "- 1022 \<le> flog2 \<bar>x\<bar>"
  shows "2 ^ 52 \<le> \<bar>x / 2 powi (max (flog2 \<bar>x\<bar>) (- 1022) - 52)\<bar>"
proof -
  define k where "k = flog2 \<bar>x\<bar>"
  define u where "u = max k (- 1022) - 52"
  have u: "u + 52 = k" using assms(2) by (simp add: u_def k_def)
  have "2 powi u * 2 powi 52 = (2::real) powi (u + 52)" by (rule p2_add [symmetric])
  also have "\<dots> = 2 powi k" using u by simp
  also have "\<dots> \<le> \<bar>x\<bar>" unfolding k_def using assms(1) by (intro flog2_bounds) simp
  finally have "2 powi u * 2 ^ 52 \<le> \<bar>x\<bar>" by simp
  then have "2 ^ 52 \<le> \<bar>x\<bar> / 2 powi u"
    by (simp add: pos_le_divide_eq mult.commute)
  then show ?thesis unfolding u_def k_def by (simp add: abs_divide)
qed

lemma bitlen_abs_bounds:
  assumes "M \<noteq> 0"
  shows "2 powi (bitlen \<bar>M\<bar> - 1) \<le> real_of_int \<bar>M\<bar>" and "real_of_int \<bar>M\<bar> < 2 powi (bitlen \<bar>M\<bar>)"
proof -
  from assms have pos: "0 < \<bar>M\<bar>" by simp
  then have b: "1 \<le> bitlen \<bar>M\<bar>" by (simp add: bitlen_alt_def)
  from bitlen_bounds [OF pos]
  have "2 ^ nat (bitlen \<bar>M\<bar> - 1) \<le> \<bar>M\<bar>" and "\<bar>M\<bar> < 2 ^ nat (bitlen \<bar>M\<bar>)" by simp_all
  then have "real_of_int (2 ^ nat (bitlen \<bar>M\<bar> - 1)) \<le> real_of_int \<bar>M\<bar>"
    and "real_of_int \<bar>M\<bar> < real_of_int (2 ^ nat (bitlen \<bar>M\<bar>))"
    by (simp_all only: of_int_le_iff of_int_less_iff)
  then show "2 powi (bitlen \<bar>M\<bar> - 1) \<le> real_of_int \<bar>M\<bar>"
    and "real_of_int \<bar>M\<bar> < 2 powi (bitlen \<bar>M\<bar>)"
    using b by (simp_all add: p2_nat)
qed

lemma overflow_test:
  assumes "M \<noteq> 0"
  shows "1024 < bitlen \<bar>M\<bar> + u \<longleftrightarrow> 2 powi 1024 \<le> real_of_int \<bar>M\<bar> * 2 powi u"
proof
  assume "1024 < bitlen \<bar>M\<bar> + u"
  then have "(2::real) powi 1024 \<le> 2 powi (bitlen \<bar>M\<bar> - 1 + u)"
    by (intro p2_le_mono) simp
  also have "\<dots> = 2 powi (bitlen \<bar>M\<bar> - 1) * 2 powi u" by (rule p2_add)
  also have "\<dots> \<le> real_of_int \<bar>M\<bar> * 2 powi u"
    using bitlen_abs_bounds(1) [OF assms] by (intro mult_right_mono) simp_all
  finally show "2 powi 1024 \<le> real_of_int \<bar>M\<bar> * 2 powi u" .
next
  assume "2 powi 1024 \<le> real_of_int \<bar>M\<bar> * 2 powi u"
  also have "\<dots> < 2 powi (bitlen \<bar>M\<bar>) * 2 powi u"
    using bitlen_abs_bounds(2) [OF assms] by (intro mult_strict_right_mono) simp_all
  also have "\<dots> = 2 powi (bitlen \<bar>M\<bar> + u)" by (simp add: p2_add)
  finally show "1024 < bitlen \<bar>M\<bar> + u" by (rule p2_less_cancel)
qed

lemma round_f64_nonzero:
  assumes "x \<noteq> 0"
  defines "u \<equiv> max (flog2 \<bar>x\<bar>) (- 1022) - 52"
  defines "M \<equiv> round_half_even (x / 2 powi u)"
  shows "round_f64 x =
           (if 2 powi 1024 \<le> real_of_int \<bar>M\<bar> * 2 powi u
            then (if 0 < x then PInf else NInf)
            else Finite (real_of_int M * 2 powi u))"
proof (cases "M = 0")
  case True
  have "flog2 \<bar>x\<bar> < - 1022"
  proof (rule ccontr)
    assume "\<not> flog2 \<bar>x\<bar> < - 1022"
    then have "2 ^ 52 \<le> \<bar>x / 2 powi u\<bar>"
      unfolding u_def using assms(1) by (intro ulp_scaled_ge) simp_all
    then have "real_of_int (2 ^ 52) \<le> \<bar>x / 2 powi u\<bar>" by simp
    then have "2 ^ 52 \<le> \<bar>M\<bar>" unfolding M_def by (rule round_half_even_abs_ge)
    with True show False by simp
  qed
  then have "u = - 1074" by (simp add: u_def)
  with True assms(1) show ?thesis
    unfolding round_f64_def Let_def u_def [symmetric] M_def [symmetric] by simp
next
  case False
  from overflow_test [OF False, of u] assms(1) show ?thesis
    unfolding round_f64_def Let_def u_def [symmetric] M_def [symmetric] by simp
qed

lemma round_f64_exact:
  assumes "is_f64 x"
  shows "round_f64 x = Finite x"
proof (cases "x = 0")
  case True
  then show ?thesis by (simp add: round_f64_def)
next
  case False
  from assms obtain m e where x: "x = real_of_int m * 2 powi e"
    and m: "\<bar>m\<bar> < 2 ^ 53" and e: "- 1074 \<le> e" "e \<le> 971"
    unfolding is_f64_def by blast
  define k where "k = flog2 \<bar>x\<bar>"
  define u where "u = max k (- 1022) - 52"
  have ax: "\<bar>x\<bar> = real_of_int \<bar>m\<bar> * 2 powi e" by (simp add: x abs_mult)
  from m have "real_of_int \<bar>m\<bar> < real_of_int (2 ^ 53)" by (simp only: of_int_less_iff)
  then have "real_of_int \<bar>m\<bar> * 2 powi e < 2 powi 53 * 2 powi e"
    by (intro mult_strict_right_mono) simp_all
  then have lt: "\<bar>x\<bar> < 2 powi (53 + e)" by (simp only: ax p2_add)
  have "2 powi k \<le> \<bar>x\<bar>" unfolding k_def using False by (intro flog2_bounds) simp
  with lt have "(2::real) powi k < 2 powi (53 + e)" by linarith
  then have "k < 53 + e" by (rule p2_less_cancel)
  with e have ue: "u \<le> e" by (simp add: u_def)
  define M where "M = m * 2 ^ nat (e - u)"
  have "2 powi e = 2 powi (e - u) * (2::real) powi u"
    using p2_add [of "e - u" u] by simp
  also have "(2::real) powi (e - u) = real_of_int (2 ^ nat (e - u))"
    using ue by (intro p2_nat) simp
  finally have xe: "x = real_of_int M * 2 powi u"
    by (simp add: x M_def)
  then have "x / 2 powi u = real_of_int M" by simp
  then have rM: "round_half_even (x / 2 powi u) = M" by simp
  have "\<bar>x\<bar> = real_of_int \<bar>M\<bar> * 2 powi u" by (simp add: xe abs_mult)
  moreover have "(2::real) powi (53 + e) \<le> 2 powi 1024" using e by (intro p2_le_mono) simp
  ultimately have "\<not> 2 powi 1024 \<le> real_of_int \<bar>M\<bar> * 2 powi u" using lt by linarith
  with round_f64_nonzero [OF False] show ?thesis
    unfolding k_def [symmetric] u_def [symmetric] rM using xe by simp
qed

lemma round_f64_is_f64:
  assumes "round_f64 x = Finite y"
  shows "is_f64 y"
proof (cases "x = 0")
  case True
  with assms have "y = real_of_int 0 * 2 powi 0" by (simp add: round_f64_def)
  then show ?thesis unfolding is_f64_def by (intro exI [of _ 0]) simp
next
  case False
  define k where "k = flog2 \<bar>x\<bar>"
  define u where "u = max k (- 1022) - 52"
  define M where "M = round_half_even (x / 2 powi u)"
  from round_f64_nonzero [OF False] assms
  have fin: "\<not> 2 powi 1024 \<le> real_of_int \<bar>M\<bar> * 2 powi u" and y: "y = real_of_int M * 2 powi u"
    unfolding k_def [symmetric] u_def [symmetric] M_def [symmetric]
    by (auto split: if_splits)
  have ulo: "- 1074 \<le> u" by (simp add: u_def)
  have "\<bar>x / 2 powi u\<bar> \<le> real_of_int (2 ^ 53)"
    using ulp_scaled_less [OF False] unfolding k_def [symmetric] u_def [symmetric] by simp
  then have Mle: "\<bar>M\<bar> \<le> 2 ^ 53" unfolding M_def by (rule round_half_even_abs_le)
  show ?thesis
  proof (cases "\<bar>M\<bar> = 2 ^ 53")
    case True
    then have "real_of_int \<bar>M\<bar> * 2 powi u = 2 powi 53 * 2 powi u" by simp
    also have "\<dots> = 2 powi (53 + u)" by (rule p2_add [symmetric])
    finally have "(2::real) powi (53 + u) < 2 powi 1024" using fin by simp
    then have "53 + u < 1024" by (rule p2_less_cancel)
    then have u1: "u + 1 \<le> 971" by simp
    from True have M2: "M = 2 ^ 53 \<or> M = - (2 ^ 53)" by linarith
    then have "real_of_int M = real_of_int (M div 2) * 2" by auto
    then have "y = real_of_int (M div 2) * (2 powi 1 * 2 powi u)" by (simp add: y)
    also have "2 powi 1 * 2 powi u = (2::real) powi (u + 1)"
      using p2_add [of 1 u] by (simp add: add.commute)
    finally have "y = real_of_int (M div 2) * 2 powi (u + 1)" .
    moreover from M2 have "\<bar>M div 2\<bar> < 2 ^ 53" by auto
    ultimately show ?thesis
      unfolding is_f64_def using ulo u1 by (intro exI [of _ "M div 2"] exI [of _ "u + 1"]) simp
  next
    case False
    with Mle have Mlt: "\<bar>M\<bar> < 2 ^ 53" by simp
    have "u \<le> 971"
    proof (rule ccontr)
      assume "\<not> u \<le> 971"
      then have u972: "972 \<le> u" by simp
      then have "- 1022 \<le> flog2 \<bar>x\<bar>" by (simp add: u_def k_def)
      from ulp_scaled_ge [OF \<open>x \<noteq> 0\<close> this]
      have "real_of_int (2 ^ 52) \<le> \<bar>x / 2 powi u\<bar>"
        unfolding k_def [symmetric] u_def [symmetric] by simp
      then have "2 ^ 52 \<le> \<bar>M\<bar>" unfolding M_def by (rule round_half_even_abs_ge)
      then have "real_of_int (2 ^ 52) \<le> real_of_int \<bar>M\<bar>" by (simp only: of_int_le_iff)
      then have "2 powi 52 * 2 powi u \<le> real_of_int \<bar>M\<bar> * 2 powi u"
        by (intro mult_right_mono) simp_all
      moreover have "(2::real) powi 1024 \<le> 2 powi (52 + u)"
        using u972 by (intro p2_le_mono) simp
      ultimately have "2 powi 1024 \<le> real_of_int \<bar>M\<bar> * 2 powi u"
        by (simp only: p2_add)
      with fin show False by simp
    qed
    with Mlt ulo y show ?thesis unfolding is_f64_def by blast
  qed
qed

lemma round_f64_overflow:
  assumes "2 ^ 1024 \<le> \<bar>x\<bar>"
  shows "round_f64 x = (if 0 < x then PInf else NInf)"
proof -
  have nz: "x \<noteq> 0" using assms by auto
  define k where "k = flog2 \<bar>x\<bar>"
  define u where "u = max k (- 1022) - 52"
  define M where "M = round_half_even (x / 2 powi u)"
  have "\<bar>x\<bar> < 2 powi (k + 1)" unfolding k_def using nz by (intro flog2_bounds) simp
  with assms have "(2::real) powi 1024 < 2 powi (k + 1)" by simp
  then have k: "1024 \<le> k" using p2_less_cancel [of 1024 "k + 1"] by simp
  then have u: "u = k - 52" by (simp add: u_def)
  from k have "- 1022 \<le> flog2 \<bar>x\<bar>" by (simp add: k_def)
  from ulp_scaled_ge [OF nz this]
  have "real_of_int (2 ^ 52) \<le> \<bar>x / 2 powi u\<bar>"
    unfolding k_def [symmetric] u_def [symmetric] by simp
  then have "2 ^ 52 \<le> \<bar>M\<bar>" unfolding M_def by (rule round_half_even_abs_ge)
  then have "real_of_int (2 ^ 52) \<le> real_of_int \<bar>M\<bar>" by (simp only: of_int_le_iff)
  then have "2 powi 52 * 2 powi u \<le> real_of_int \<bar>M\<bar> * 2 powi u"
    by (intro mult_right_mono) simp_all
  moreover have "(2::real) powi 1024 \<le> 2 powi (52 + u)"
    using k u by (intro p2_le_mono) simp
  ultimately have "2 powi 1024 \<le> real_of_int \<bar>M\<bar> * 2 powi u"
    by (simp only: p2_add)
  with round_f64_nonzero [OF nz] show ?thesis
    unfolding k_def [symmetric] u_def [symmetric] M_def [symmetric] by simp
qed

lemma round_f64_finite:
  assumes "\<bar>x\<bar> < 2 ^ 1024 - 2 ^ 970"
  shows "\<exists>y. round_f64 x = Finite y"
proof (cases "x = 0")
  case True
  then show ?thesis by (simp add: round_f64_def)
next
  case False
  define k where "k = flog2 \<bar>x\<bar>"
  define u where "u = max k (- 1022) - 52"
  define M where "M = round_half_even (x / 2 powi u)"
  have "2 powi k \<le> \<bar>x\<bar>" unfolding k_def using False by (intro flog2_bounds) simp
  with assms have "(2::real) powi k < 2 powi 1024" by simp
  then have "k < 1024" by (rule p2_less_cancel)
  then have u: "u \<le> 971" by (simp add: u_def)
  have "\<bar>real_of_int M - x / 2 powi u\<bar> \<le> 1 / 2"
    unfolding M_def by (rule round_half_even_error)
  then have "\<bar>real_of_int M\<bar> \<le> \<bar>x / 2 powi u\<bar> + 1 / 2" by linarith
  then have "\<bar>real_of_int M\<bar> * 2 powi u \<le> (\<bar>x / 2 powi u\<bar> + 1 / 2) * 2 powi u"
    by (intro mult_right_mono) simp_all
  also have "\<dots> = \<bar>x\<bar> + 2 powi u / 2"
    by (simp add: abs_divide distrib_right)
  also have "2 powi u / 2 = (2::real) powi (u - 1)"
    using p2_diff [of u 1] by simp
  also have "(2::real) powi (u - 1) \<le> 2 powi 970" using u by (intro p2_le_mono) simp
  finally have "\<bar>real_of_int M\<bar> * 2 powi u \<le> \<bar>x\<bar> + 2 ^ 970" by simp
  with assms have "\<not> 2 powi 1024 \<le> real_of_int \<bar>M\<bar> * 2 powi u" by simp
  with round_f64_nonzero [OF False] show ?thesis
    unfolding k_def [symmetric] u_def [symmetric] M_def [symmetric] by simp
qed

lemma is_f64_of_int:
  assumes "\<bar>n\<bar> \<le> 2 ^ 53"
  shows "is_f64 (real_of_int n)"
proof (cases "\<bar>n\<bar> = 2 ^ 53")
  case True
  then have n2: "n = 2 ^ 53 \<or> n = - (2 ^ 53)" by linarith
  then have "real_of_int n = real_of_int (n div 2) * 2 powi 1" by auto
  moreover from n2 have "\<bar>n div 2\<bar> < 2 ^ 53" by auto
  ultimately show ?thesis
    unfolding is_f64_def by (intro exI [of _ "n div 2"] exI [of _ 1]) simp
next
  case False
  with assms have "\<bar>n\<bar> < 2 ^ 53" by simp
  moreover have "real_of_int n = real_of_int n * 2 powi 0" by simp
  ultimately show ?thesis
    unfolding is_f64_def by (intro exI [of _ n] exI [of _ 0]) simp
qed

lemma is_f64_minus_one:
  assumes "is_f64 x" and "1 \<le> x" and "x \<le> 2 ^ 53"
  shows "is_f64 (x - 1)"
proof -
  from assms(1) obtain m e where x: "x = real_of_int m * 2 powi e"
    and m: "\<bar>m\<bar> < 2 ^ 53" and e: "- 1074 \<le> e" "e \<le> 971"
    unfolding is_f64_def by blast
  show ?thesis
  proof (cases "0 \<le> e")
    case True
    then have "x = real_of_int (m * 2 ^ nat e)" by (simp add: x p2_nat)
    then obtain n where n: "x = real_of_int n" ..
    with assms(2,3) have "1 \<le> n" and "real_of_int n \<le> real_of_int (2 ^ 53)" by simp_all
    then have "1 \<le> n" and "n \<le> 2 ^ 53" by (simp_all only: of_int_le_iff)
    then have "\<bar>n - 1\<bar> \<le> 2 ^ 53" by linarith
    then have "is_f64 (real_of_int (n - 1))" by (rule is_f64_of_int)
    with n show ?thesis by simp
  next
    case False
    then have ne: "0 \<le> - e" by simp
    have one: "real_of_int (2 ^ nat (- e)) * 2 powi e = 1"
      using p2_add [of "- e" e] p2_nat [OF ne] by simp
    then have eq: "x - 1 = real_of_int (m - 2 ^ nat (- e)) * 2 powi e"
      by (simp add: x left_diff_distrib)
    from assms(2) have "real_of_int (2 ^ nat (- e)) * 2 powi e \<le> real_of_int m * 2 powi e"
      by (simp only: one x)
    then have "real_of_int (2 ^ nat (- e)) \<le> real_of_int m"
      by (simp only: mult_le_cancel_right) simp
    then have "2 ^ nat (- e) \<le> m" by (simp only: of_int_le_iff)
    moreover have "(0::int) < 2 ^ nat (- e)" by simp
    ultimately have "\<bar>m - 2 ^ nat (- e)\<bar> < 2 ^ 53" using m by linarith
    with eq e show ?thesis unfolding is_f64_def by blast
  qed
qed

section \<open>One admission check over Python's numbers\<close>

lemma round_f64_zero [simp]: "round_f64 0 = Finite 0"
  by (simp add: round_f64_def)

lemma is_f64_one: "is_f64 1"
  using is_f64_of_int [of 1] by simp

lemma float_of_int_exact:
  "is_f64 (real_of_int n) \<Longrightarrow> float_of_int n = Inr (Finite (real_of_int n))"
  by (simp add: float_of_int_def round_f64_exact)

lemma float_of_int_error: "float_of_int n = Inl err \<Longrightarrow> err = OverflowError"
  by (auto simp add: float_of_int_def split: f64.splits)

lemma float_of_int_in_range:
  assumes "\<bar>n\<bar> < 2 ^ 1024 - 2 ^ 970"
  shows "\<exists>y. float_of_int n = Inr (Finite y)"
proof -
  from assms have "real_of_int \<bar>n\<bar> < real_of_int (2 ^ 1024 - 2 ^ 970)"
    by (simp only: of_int_less_iff)
  then have "\<bar>real_of_int n\<bar> < 2 ^ 1024 - 2 ^ 970" by simp
  from round_f64_finite [OF this] show ?thesis
    by (auto simp add: float_of_int_def)
qed


lemma f64_add_FiniteD:
  assumes "f64_add a b = Finite p"
  shows "\<exists>x y. a = Finite x \<and> b = Finite y \<and> round_f64 (x + y) = Finite p"
  using assms by (cases a; cases b) auto

lemma allow_request_f64_step:
  assumes p: "f64_mul (f64_sub now (last_checked_f64 b)) (refill_rate_f64 b) = Finite p"
    and v: "num_val (tokens_f64 b) = Finite v" "is_f64 v"
    and s: "round_f64 (v + p) = Finite s"
    and capf: "real_of_int (capacity_f64 b) \<le> s \<Longrightarrow> is_f64 (real_of_int (capacity_f64 b))"
    and w53: "min (real_of_int (capacity_f64 b)) s \<le> 2 ^ 53"
  defines "w \<equiv> min (real_of_int (capacity_f64 b)) s"
  defines "b' \<equiv> snd (allow_request_f64 now b)"
  shows "fst (allow_request_f64 now b) = Inr (1 \<le> w)"
    and "capacity_f64 b' = capacity_f64 b"
    and "refill_rate_f64 b' = refill_rate_f64 b"
    and "last_checked_f64 b' = now"
    and "num_val (tokens_f64 b') = Finite (if 1 \<le> w then w - 1 else w)"
    and "is_f64 (if 1 \<le> w then w - 1 else w)"
proof -
  let ?c = "capacity_f64 b"
  have refilled: "py_add (tokens_f64 b) (PyFloat (Finite p)) = Inr (PyFloat (Finite s))"
  proof (cases "tokens_f64 b")
    case (PyInt n)
    with v have "float_of_int n = Inr (Finite v)" by (auto simp add: float_of_int_exact)
    with PyInt s show ?thesis by simp
  next
    case (PyFloat x)
    with v s show ?thesis by simp
  qed
  have sf: "is_f64 s" using s by (rule round_f64_is_f64)
  have wf: "is_f64 w" using capf sf by (simp add: w_def min_def)
  have w53: "w \<le> 2 ^ 53" using w53 by (simp add: w_def)
  define t2 where "t2 = py_min (PyInt ?c) (PyFloat (Finite s))"
  have t2: "t2 = (if s < real_of_int ?c then PyFloat (Finite s) else PyInt ?c)"
    by (simp add: t2_def py_min_def py_lt_def)
  have t2v: "num_val t2 = Finite w" by (auto simp add: t2 w_def min_def)
  have ge: "py_ge t2 (PyInt 1) \<longleftrightarrow> 1 \<le> w" by (simp add: py_ge_def t2v)
  have one: "float_of_int 1 = Inr (Finite 1)"
    using float_of_int_exact [of 1] is_f64_one by simp
  have sub: "\<exists>t3. py_sub t2 (PyInt 1) = Inr t3 \<and> num_val t3 = Finite (w - 1)" if "1 \<le> w"
  proof (cases "s < real_of_int ?c")
    case True
    then have ws: "w = s" by (simp add: w_def)
    from that wf w53 have "is_f64 (w - 1)" by (intro is_f64_minus_one)
    then have "round_f64 (s + - 1) = Finite (w - 1)" using ws by (simp add: round_f64_exact)
    with True show ?thesis by (simp add: t2 one f64_sub_def)
  next
    case False
    then have "w = real_of_int ?c" by (simp add: w_def)
    with False show ?thesis by (simp add: t2)
  qed
  have res: "allow_request_f64 now b =
      (if 1 \<le> w
       then (case py_sub t2 (PyInt 1) of
               Inl err \<Rightarrow> (Inl err, b\<lparr>last_checked_f64 := now, tokens_f64 := t2\<rparr>)
             | Inr t3 \<Rightarrow> (Inr True, b\<lparr>last_checked_f64 := now, tokens_f64 := t3\<rparr>))
       else (Inr False, b\<lparr>last_checked_f64 := now, tokens_f64 := t2\<rparr>))"
    using refilled ge by (simp add: allow_request_f64_def Let_def p t2_def split: sum.splits)
  show "fst (allow_request_f64 now b) = Inr (1 \<le> w)"
    using sub by (auto simp add: res)
  show "capacity_f64 b' = capacity_f64 b"
    using sub by (auto simp add: res b'_def)
  show "refill_rate_f64 b' = refill_rate_f64 b"
    using sub by (auto simp add: res b'_def)
  show "last_checked_f64 b' = now"
    using sub by (auto simp add: res b'_def)
  show "num_val (tokens_f64 b') = Finite (if 1 \<le> w then w - 1 else w)"
    using sub t2v by (auto simp add: res b'_def)
  show "is_f64 (if 1 \<le> w then w - 1 else w)"
    using wf w53 by (auto intro: is_f64_minus_one)
qed

text \<open>
  Where no operation rounds, the two readings of \<^verbatim>\<open>allow_request\<close> agree: on a bucket
  whose token count is a double \<open>v\<close> (or an \<^verbatim>\<open>int\<close> that is one), with a capacity between
  0 and \<open>2 ^ 53\<close>, when the elapsed time, its product with the rate and the refilled
  count are all representable, the check over Python's numbers returns the boolean and
  leaves the token count, clock, capacity and rate that the exact one does.
\<close>

lemma allow_request_f64_exact:
  assumes l: "last_checked_f64 b = Finite l" and r: "refill_rate_f64 b = Finite r"
    and v: "num_val (tokens_f64 b) = Finite v" "is_f64 v"
    and cap: "0 \<le> capacity_f64 b" "capacity_f64 b \<le> 2 ^ 53"
    and e1: "is_f64 (t - l)" and e2: "is_f64 ((t - l) * r)" and e3: "is_f64 (v + (t - l) * r)"
  defines "a \<equiv> \<lparr>capacity = capacity_f64 b, tokens = v, refill_rate = r, last_checked = l\<rparr>"
  defines "b' \<equiv> snd (allow_request_f64 (Finite t) b)"
  defines "a' \<equiv> snd (allow_request t a)"
  shows "fst (allow_request_f64 (Finite t) b) = Inr (fst (allow_request t a))"
    and "num_val (tokens_f64 b') = Finite (tokens a')"
    and "last_checked_f64 b' = Finite (last_checked a')"
    and "capacity_f64 b' = capacity a'"
    and "refill_rate_f64 b' = Finite (refill_rate a')"
proof -
  have "round_f64 (t + - l) = Finite (t - l)" using e1 by (simp add: round_f64_exact)
  then have p: "f64_mul (f64_sub (Finite t) (last_checked_f64 b)) (refill_rate_f64 b)
                  = Finite ((t - l) * r)"
    using e2 by (simp add: l r f64_sub_def round_f64_exact)
  have s: "round_f64 (v + (t - l) * r) = Finite (v + (t - l) * r)"
    using e3 by (rule round_f64_exact)
  have capf: "is_f64 (real_of_int (capacity_f64 b))" using cap by (intro is_f64_of_int) simp
  from cap(2) have "real_of_int (capacity_f64 b) \<le> real_of_int (2 ^ 53)"
    by (simp only: of_int_le_iff)
  then have w53: "min (real_of_int (capacity_f64 b)) (v + (t - l) * r) \<le> 2 ^ 53" by simp
  note st = allow_request_f64_step [OF p v s capf w53]
  show "fst (allow_request_f64 (Finite t) b) = Inr (fst (allow_request t a))"
    using st(1) by (simp add: allow_request_result a_def)
  show "num_val (tokens_f64 b') = Finite (tokens a')"
    using st(5) by (simp add: allow_request_tokens a_def a'_def b'_def Let_def)
  show "last_checked_f64 b' = Finite (last_checked a')"
    using st(4) by (simp add: allow_request_fields a'_def b'_def)
  show "capacity_f64 b' = capacity a'"
    using st(2) by (simp add: allow_request_fields a_def a'_def b'_def)
  show "refill_rate_f64 b' = Finite (refill_rate a')"
    using st(3) r by (simp add: allow_request_fields a_def a'_def b'_def)
qed

section \<open>Bursts\<close>

lemma allow_requests_f64_Cons:
  "allow_requests_f64 (t # ts) b =
     (fst (allow_request_f64 t b) # fst (allow_requests_f64 ts (snd (allow_request_f64 t b))),
      snd (allow_requests_f64 ts (snd (allow_request_f64 t b))))"
  by (simp split: prod.splits)

lemma zero_elapsed_product:
  "f64_mul (f64_sub (Finite t) (Finite t)) (Finite r) = Finite 0"
  by (simp add: f64_sub_def)

lemma f64_burst:
  assumes "last_checked_f64 b = Finite t" and "refill_rate_f64 b = Finite r"
    and "num_val (tokens_f64 b) = Finite v" and "is_f64 v"
    and "v \<le> real_of_int (capacity_f64 b)" and "v \<le> 2 ^ 53"
    and "nat \<lfloor>v\<rfloor> = k"
  shows "fst (allow_requests_f64 (replicate (Suc k) (Finite t)) b)
           = replicate k (Inr True) @ [Inr False]"
  using assms
proof (induction k arbitrary: b v)
  case 0
  have p: "f64_mul (f64_sub (Finite t) (last_checked_f64 b)) (refill_rate_f64 b) = Finite 0"
    using 0 by (simp add: zero_elapsed_product)
  have s: "round_f64 (v + 0) = Finite v" using 0 by (simp add: round_f64_exact)
  have capf: "is_f64 (real_of_int (capacity_f64 b))" if "real_of_int (capacity_f64 b) \<le> v"
    using that "0.prems"(4,5) by (simp add: order_antisym)
  have w53: "min (real_of_int (capacity_f64 b)) v \<le> 2 ^ 53" using "0.prems"(6) by simp
  from 0 have "\<lfloor>v\<rfloor> \<le> 0" by simp
  then have "v < 1" by linarith
  then have "\<not> 1 \<le> min (real_of_int (capacity_f64 b)) v" by simp
  with allow_request_f64_step(1) [OF p "0.prems"(3,4) s capf w53]
  have "fst (allow_request_f64 (Finite t) b) = Inr False" by simp
  then show ?case
    by (simp add: allow_requests_f64_Cons del: allow_requests_f64.simps(2))
next
  case (Suc k)
  let ?b' = "snd (allow_request_f64 (Finite t) b)"
  have p: "f64_mul (f64_sub (Finite t) (last_checked_f64 b)) (refill_rate_f64 b) = Finite 0"
    using Suc.prems by (simp add: zero_elapsed_product)
  have s: "round_f64 (v + 0) = Finite v" using Suc.prems by (simp add: round_f64_exact)
  have capf: "is_f64 (real_of_int (capacity_f64 b))" if "real_of_int (capacity_f64 b) \<le> v"
    using that Suc.prems(4,5) by (simp add: order_antisym)
  have w53: "min (real_of_int (capacity_f64 b)) v \<le> 2 ^ 53" using Suc.prems(6) by simp
  note st = allow_request_f64_step [OF p Suc.prems(3,4) s capf w53]
  have w: "min (real_of_int (capacity_f64 b)) v = v" using Suc.prems(5) by simp
  from Suc.prems(7) have fl: "\<lfloor>v\<rfloor> = int k + 1" by linarith
  then have ge: "1 \<le> v" by linarith
  from st(1) w ge have ok: "fst (allow_request_f64 (Finite t) b) = Inr True" by simp
  from st(5,6) w ge have tk: "num_val (tokens_f64 ?b') = Finite (v - 1)" "is_f64 (v - 1)"
    by simp_all
  from fl have "nat \<lfloor>v - 1\<rfloor> = k" by simp
  moreover have "v - 1 \<le> real_of_int (capacity_f64 ?b')"
    using Suc.prems(5) st(2) by simp
  moreover have "v - 1 \<le> 2 ^ 53" using Suc.prems(6) by simp
  ultimately have "fst (allow_requests_f64 (replicate (Suc k) (Finite t)) ?b')
      = replicate k (Inr True) @ [Inr False]"
    using Suc.IH [of ?b' "v - 1"] st(3,4) tk Suc.prems(2) by simp
  with ok show ?case
    by (simp add: allow_requests_f64_Cons del: allow_requests_f64.simps(2))
qed

text \<open>
  C3 (as amended). For every capacity \<open>C\<close> with \<open>0 \<le> C \<le> 2 ^ 53\<close> and every finite refill
  rate, a freshly constructed bucket, asked \<open>C + 1\<close> times at the very clock value of its
  construction, admits the first \<open>C\<close> requests and denies the next one.
\<close>

theorem burst_admission:
  assumes "C \<le> 2 ^ 53"
  shows "fst (allow_requests_f64 (replicate (C + 1) (Finite t0))
                (TokenBucket_init_f64 (int C) (Finite rate) (Finite t0)))
           = replicate C (Inr True) @ [Inr False]"
proof -
  let ?b = "TokenBucket_init_f64 (int C) (Finite rate) (Finite t0)"
  from assms have "int C \<le> int (2 ^ 53)" by (simp only: of_nat_le_iff)
  then have c: "int C \<le> 2 ^ 53" by simp
  then have f: "is_f64 (real_of_int (int C))" by (intro is_f64_of_int) simp
  from c have "real_of_int (int C) \<le> real_of_int (2 ^ 53)" by (simp only: of_int_le_iff)
  then have r: "real C \<le> 2 ^ 53" by simp
  from f r have "fst (allow_requests_f64 (replicate (Suc C) (Finite t0)) ?b)
      = replicate C (Inr True) @ [Inr False]"
    by (intro f64_burst [where r = rate and v = "real C"])
       (simp_all add: TokenBucket_init_f64_def)
  then show ?thesis by simp
qed

theorem burst_admission_witness:
  "fst (allow_requests_f64
          [Finite 100, Finite 100, Finite 100, Finite 100, Finite 100, Finite 100]
          (TokenBucket_init_f64 5 (Finite (1 / 2)) (Finite 100)))
     = [Inr True, Inr True, Inr True, Inr True, Inr True, Inr False]"
proof -
  have "(5::nat) \<le> 2 ^ 53" by simp
  from burst_admission [OF this, of 100 "1 / 2"] show ?thesis
    by (simp add: eval_nat_numeral del: allow_requests_f64.simps)
qed

lemma burst_lost_token:
  assumes k: "int k = 2 ^ 53 - 1"
  shows "fst (allow_requests_f64 (replicate (Suc (Suc k)) (Finite 100))
                (TokenBucket_init_f64 (2 ^ 53 + 1) (Finite (1 / 2)) (Finite 100)))
           = replicate (Suc k) (Inr True) @ [Inr False]"
proof -
  let ?b = "TokenBucket_init_f64 (2 ^ 53 + 1) (Finite (1 / 2)) (Finite 100)"
  let ?b' = "\<lparr>capacity_f64 = 2 ^ 53 + 1, tokens_f64 = PyFloat (Finite (2 ^ 53 - 1)),
              refill_rate_f64 = Finite (1 / 2), last_checked_f64 = Finite 100\<rparr>"
  have first: "allow_request_f64 (Finite 100) ?b = (Inr True, ?b')"
    by code_simp
  have "real_of_int (int k) = real_of_int (2 ^ 53 - 1)" using k by simp
  then have rk: "real k = 2 ^ 53 - 1" by simp
  have "is_f64 (real_of_int (2 ^ 53 - 1))" by (intro is_f64_of_int) simp
  then have f: "is_f64 (2 ^ 53 - 1)" by simp
  have "nat \<lfloor>real k\<rfloor> = k" by simp
  then have fl: "nat \<lfloor>(2 ^ 53 - 1 :: real)\<rfloor> = k" using rk by simp
  have "fst (allow_requests_f64 (replicate (Suc k) (Finite 100)) ?b')
      = replicate k (Inr True) @ [Inr False]"
    by (rule f64_burst [where r = "1 / 2" and v = "2 ^ 53 - 1"]) (use f fl in simp_all)
  with first show ?thesis
    by (simp add: allow_requests_f64_Cons del: allow_requests_f64.simps(2))
qed

text \<open>
  At \<open>C = 2 ^ 53 + 1\<close> the statement for every \<open>C\<close> fails. The first check converts the
  \<^verbatim>\<open>int\<close> token count to a double, which rounds to \<open>2 ^ 53\<close>: one token is lost, and of
  the first \<open>C\<close> checks only \<open>C - 1\<close> are admitted, the \<open>C\<close>-th being denied.
\<close>

theorem burst_admission_counterexample:
  "fst (allow_requests_f64 (replicate (2 ^ 53 + 1) (Finite 100))
          (TokenBucket_init_f64 (2 ^ 53 + 1) (Finite (1 / 2)) (Finite 100)))
     = replicate (2 ^ 53) (Inr True) @ [Inr False]"
proof -
  have k: "int (2 ^ 53 - 1) = 2 ^ 53 - 1" by simp
  have 1: "Suc (2 ^ 53) = 2 ^ 53 + 1" by simp
  have 2: "Suc (2 ^ 53 - 1) = 2 ^ 53" by simp
  from burst_lost_token [OF k] show ?thesis
    by (simp only: 1 2)
qed

section \<open>Refill after a wait\<close>




section \<open>The decorator\<close>

lemma py_sub_one_ok: "\<exists>t. py_sub (py_min (PyInt c) (PyFloat z)) (PyInt 1) = Inr t"
proof -
  have "float_of_int 1 = Inr (Finite 1)"
    using float_of_int_exact [of 1] is_f64_one by simp
  then show ?thesis by (simp add: py_min_def)
qed

lemma allow_request_f64_float_ok:
  assumes "py_add (tokens_f64 b) (PyFloat y) = Inr refilled"
  shows "\<exists>z. refilled = PyFloat z"
  using assms by (cases "tokens_f64 b") (auto split: sum.splits)

lemma allow_request_f64_raises:
  "fst (allow_request_f64 now b) = Inl err \<longleftrightarrow>
     err = OverflowError \<and> (\<exists>n. tokens_f64 b = PyInt n \<and> float_of_int n = Inl OverflowError)"
proof -
  define y where "y = f64_mul (f64_sub now (last_checked_f64 b)) (refill_rate_f64 b)"
  show ?thesis
  proof (cases "py_add (tokens_f64 b) (PyFloat y)")
    case (Inl e)
    then have "fst (allow_request_f64 now b) = Inl e"
      by (simp add: allow_request_f64_def Let_def y_def)
    moreover from Inl have "e = OverflowError \<and>
        (\<exists>n. tokens_f64 b = PyInt n \<and> float_of_int n = Inl OverflowError)"
      by (cases "tokens_f64 b") (auto split: sum.splits dest: float_of_int_error)
    ultimately show ?thesis by auto
  next
    case (Inr refilled)
    from allow_request_f64_float_ok [OF Inr] obtain z where z: "refilled = PyFloat z" ..
    from py_sub_one_ok [of "capacity_f64 b" z] obtain t
      where t: "py_sub (py_min (PyInt (capacity_f64 b)) (PyFloat z)) (PyInt 1) = Inr t" ..
    have "\<exists>ok. fst (allow_request_f64 now b) = Inr ok"
      using Inr z t by (auto simp add: allow_request_f64_def Let_def y_def)
    moreover from Inr have "\<not> (\<exists>n. tokens_f64 b = PyInt n \<and> float_of_int n = Inl OverflowError)"
      by (cases "tokens_f64 b") auto
    ultimately show ?thesis by auto
  qed
qed

text \<open>
  C7 (as amended). The wrapper raises \<^verbatim>\<open>HTTPException\<close> with status 429 and detail
  ``Rate limit exceeded. Try again later.'' if and only if \<^verbatim>\<open>allow_request\<close> returns
  false; when it returns true the wrapped handler is called and its outcome is passed on
  unchanged. \<^verbatim>\<open>allow_request\<close> returns a boolean, and raises nothing, whenever the token
  count is a \<^verbatim>\<open>float\<close> or an \<^verbatim>\<open>int\<close> below \<open>2 ^ 1024 - 2 ^ 970\<close> in magnitude; it raises
  exactly when the token count is an \<^verbatim>\<open>int\<close> with no finite double, the exception is
  \<^verbatim>\<open>OverflowError\<close>, and the wrapper lets it through in place of an answer.
\<close>

theorem rate_limited_429_iff_denied:
  "rate_limited func now b req =
     (case fst (allow_request_f64 now b) of
        Inl err \<Rightarrow> Inl err
      | Inr ok \<Rightarrow>
          if ok then Inr (func req)
          else Inl (HTTPException 429 ''Rate limit exceeded. Try again later.''),
      snd (allow_request_f64 now b)) \<and>
   (fst (rate_limited func now b req) =
      Inl (HTTPException 429 ''Rate limit exceeded. Try again later.'') \<longleftrightarrow>
    fst (allow_request_f64 now b) = Inr False) \<and>
   (fst (allow_request_f64 now b) = Inr True \<longrightarrow>
      fst (rate_limited func now b req) = Inr (func req)) \<and>
   ((\<exists>err. fst (allow_request_f64 now b) = Inl err) \<longleftrightarrow>
      (\<exists>n. tokens_f64 b = PyInt n \<and> float_of_int n = Inl OverflowError)) \<and>
   (\<forall>err. fst (allow_request_f64 now b) = Inl err \<longrightarrow> err = OverflowError) \<and>
   (\<forall>n. tokens_f64 b = PyInt n \<and> \<bar>n\<bar> < 2 ^ 1024 - 2 ^ 970 \<longrightarrow>
      (\<exists>ok. fst (allow_request_f64 now b) = Inr ok)) \<and>
   (\<forall>x. tokens_f64 b = PyFloat x \<longrightarrow> (\<exists>ok. fst (allow_request_f64 now b) = Inr ok))"
proof (intro conjI allI impI)
  show eq: "rate_limited func now b req =
     (case fst (allow_request_f64 now b) of
        Inl err \<Rightarrow> Inl err
      | Inr ok \<Rightarrow>
          if ok then Inr (func req)
          else Inl (HTTPException 429 ''Rate limit exceeded. Try again later.''),
      snd (allow_request_f64 now b))"
    by (cases "allow_request_f64 now b")
       (simp add: rate_limited_def HTTP_429_TOO_MANY_REQUESTS_def split: sum.splits)
  show "fst (rate_limited func now b req) =
      Inl (HTTPException 429 ''Rate limit exceeded. Try again later.'') \<longleftrightarrow>
    fst (allow_request_f64 now b) = Inr False"
  proof (cases "fst (allow_request_f64 now b)")
    case (Inl e)
    then have "e = OverflowError" by (simp add: allow_request_f64_raises)
    with Inl show ?thesis by (simp add: eq)
  next
    case (Inr ok)
    then show ?thesis by (simp add: eq)
  qed
  show "fst (rate_limited func now b req) = Inr (func req)"
    if "fst (allow_request_f64 now b) = Inr True"
    using that by (simp add: eq)
  show "(\<exists>err. fst (allow_request_f64 now b) = Inl err) \<longleftrightarrow>
      (\<exists>n. tokens_f64 b = PyInt n \<and> float_of_int n = Inl OverflowError)"
    by (simp add: allow_request_f64_raises)
  show "err = OverflowError" if "fst (allow_request_f64 now b) = Inl err" for err
    using that by (simp add: allow_request_f64_raises)
  show "\<exists>ok. fst (allow_request_f64 now b) = Inr ok"
    if "tokens_f64 b = PyInt n \<and> \<bar>n\<bar> < 2 ^ 1024 - 2 ^ 970" for n
  proof -
    from that float_of_int_in_range [of n] obtain y where "float_of_int n = Inr (Finite y)"
      by blast
    with that have "\<not> (\<exists>err. fst (allow_request_f64 now b) = Inl err)"
      by (auto simp add: allow_request_f64_raises)
    then show ?thesis by (cases "fst (allow_request_f64 now b)") auto
  qed
  show "\<exists>ok. fst (allow_request_f64 now b) = Inr ok" if "tokens_f64 b = PyFloat x" for x
  proof -
    from that have "\<not> (\<exists>err. fst (allow_request_f64 now b) = Inl err)"
      by (auto simp add: allow_request_f64_raises)
    then show ?thesis by (cases "fst (allow_request_f64 now b)") auto
  qed
qed

theorem rate_limited_429_iff_denied_witness:
  "fst (rate_limited rate_limited_endpoint (Finite 100)
          (TokenBucket_init_f64 1 (Finite (1 / 2)) (Finite 100)) ()) =
     Inr [(''message'', ''Rate Limiter Code Challenge!'')] \<and>
   fst (rate_limited rate_limited_endpoint (Finite 100)
          \<lparr>capacity_f64 = 1, tokens_f64 = PyFloat (Finite 0), refill_rate_f64 = Finite (1 / 2),
           last_checked_f64 = Finite 100\<rparr> ()) =
     Inl (HTTPException 429 ''Rate limit exceeded. Try again later.'') \<and>
   (\<exists>ok. fst (allow_request_f64 (Finite 100)
                (TokenBucket_init_f64 1 (Finite (1 / 2)) (Finite 100))) = Inr ok)"
proof -
  let ?b1 = "TokenBucket_init_f64 1 (Finite (1 / 2)) (Finite 100)"
  let ?b0 = "\<lparr>capacity_f64 = 1, tokens_f64 = PyFloat (Finite 0),
              refill_rate_f64 = Finite (1 / 2), last_checked_f64 = Finite 100\<rparr>"
  have yes: "fst (allow_request_f64 (Finite 100) ?b1) = Inr True" by code_simp
  have no: "fst (allow_request_f64 (Finite 100) ?b0) = Inr False" by code_simp
  have small: "tokens_f64 ?b1 = PyInt 1 \<and> \<bar>1 :: int\<bar> < 2 ^ 1024 - 2 ^ 970"
    by (simp add: TokenBucket_init_f64_def)
  from rate_limited_429_iff_denied [of rate_limited_endpoint "Finite 100" ?b1 "()"] yes small
  have 1: "fst (rate_limited rate_limited_endpoint (Finite 100) ?b1 ()) =
             Inr (rate_limited_endpoint ())"
    and 3: "\<exists>ok. fst (allow_request_f64 (Finite 100) ?b1) = Inr ok"
    by blast+
  from rate_limited_429_iff_denied [of rate_limited_endpoint "Finite 100" ?b0 "()"] no
  have 2: "fst (rate_limited rate_limited_endpoint (Finite 100) ?b0 ()) =
             Inl (HTTPException 429 ''Rate limit exceeded. Try again later.'')"
    by blast
  from 1 2 3 show ?thesis by (simp add: rate_limited_endpoint_def)
qed

lemma huge_int_raises:
  assumes "2 ^ 1024 \<le> n"
  shows "fst (allow_request_f64 now (TokenBucket_init_f64 n rate t0)) = Inl OverflowError"
    and "fst (rate_limited func now (TokenBucket_init_f64 n rate t0) req) = Inl OverflowError"
proof -
  let ?b = "TokenBucket_init_f64 n rate t0"
  from assms have "real_of_int (2 ^ 1024) \<le> real_of_int n" by (simp only: of_int_le_iff)
  then have "2 ^ 1024 \<le> \<bar>real_of_int n\<bar>" by simp
  from round_f64_overflow [OF this] have "float_of_int n = Inl OverflowError"
    by (simp add: float_of_int_def)
  then show raised: "fst (allow_request_f64 now ?b) = Inl OverflowError"
    by (simp add: allow_request_f64_raises TokenBucket_init_f64_def)
  then show "fst (rate_limited func now ?b req) = Inl OverflowError"
    by (cases "allow_request_f64 now ?b") (simp add: rate_limited_def)
qed

text \<open>
  \<^verbatim>\<open>allow_request\<close> can raise. A bucket constructed with capacity \<open>10 ^ 400\<close> holds that
  \<^verbatim>\<open>int\<close> as its token count; the first check adds a float to it, the conversion has no
  finite double, and \<^verbatim>\<open>OverflowError\<close> leaves \<^verbatim>\<open>allow_request\<close> and the wrapper: the
  request gets neither the handler's answer nor the 429.
\<close>

theorem rate_limited_429_iff_denied_counterexample:
  "fst (allow_request_f64 (Finite 100)
          (TokenBucket_init_f64 (10 ^ 400) (Finite (1 / 2)) (Finite 100))) = Inl OverflowError \<and>
   fst (rate_limited rate_limited_endpoint (Finite 100)
          (TokenBucket_init_f64 (10 ^ 400) (Finite (1 / 2)) (Finite 100)) ()) = Inl OverflowError"
proof -
  have "(2::int) ^ 1024 \<le> 10 ^ 400" by simp
  then show ?thesis by (intro conjI huge_int_raises)
qed

end
